theory Spec2Isabelle
  imports Main "HOL-Library.Sublist"
begin

section \<open>Python string primitives\<close>

text \<open>
  Texts are \<^typ>\<open>string\<close>, that is lists of characters. Python's \<^verbatim>\<open>str\<close> is a
  sequence of code points and \<^typ>\<open>char\<close> is a byte; every pattern and replacement of
  the rule table is ASCII, and an ASCII byte never occurs inside a multi-byte UTF-8
  sequence, so replacing on the UTF-8 bytes of a text is replacing on its code points.

  \<^verbatim>\<open>s.replace(old, new)\<close> scans \<open>s\<close> from the left, replaces the leftmost
  occurrence of \<open>old\<close>, and continues after it (occurrences that overlap a replaced
  one are skipped). With an empty \<open>old\<close>, \<open>new\<close> is inserted before every
  character and at the end.
\<close>

function replace :: "string \<Rightarrow> string \<Rightarrow> string \<Rightarrow> string" where
  "replace [] old new = (if old = [] then new else [])"
| "replace (c # cs) old new =
     (if old = [] then new @ c # replace cs old new
      else if prefix old (c # cs) then new @ replace (drop (length old) (c # cs)) old new
      else c # replace cs old new)"
  by pat_completeness auto
termination
  by (relation "measure (\<lambda>(s, old, new). length s)") (auto simp: neq_Nil_conv)

text \<open>\<^verbatim>\<open>sep.join(parts)\<close>, used to describe what a pass of \<open>replace\<close> does.\<close>

fun join :: "string \<Rightarrow> string list \<Rightarrow> string" where
  "join sep [] = []"
| "join sep [x] = x"
| "join sep (x # y # ys) = x @ sep @ join sep (y # ys)"

section \<open>The rule table and the file list\<close>

type_synonym rule = "string \<times> string"

text \<open>\<^verbatim>\<open>REPLACEMENTS\<close>, lines 34 to 144, in the order of the source.\<close>

definition REPLACEMENTS :: "rule list" where
  "REPLACEMENTS = [
     \<comment> \<open>Card wrapper pattern\<close>
     (''bg-[#121212] backdrop-blur border border-slate-800 rounded-2xl'', ''rounded-2xl border border-gray-800 bg-white/[0.02]''),
     \<comment> \<open>Background hex colors\<close>
     (''bg-[#121212]'', ''bg-gray-950''),
     (''bg-[#1a1a1a]'', ''bg-gray-900''),
     (''bg-[#0a0f1c]'', ''bg-gray-950''),
     (''bg-[#0a1020]'', ''bg-gray-950''),
     (''bg-[#0F172A]'', ''bg-gray-950''),
     \<comment> \<open>Hover bg-slate (specific patterns first)\<close>
     (''hover:bg-slate-800/50'', ''hover:bg-white/[0.05]''),
     (''hover:bg-slate-700/30'', ''hover:bg-white/[0.05]''),
     (''hover:bg-slate-800/30'', ''hover:bg-white/[0.05]''),
     (''hover:bg-slate-800/20'', ''hover:bg-white/[0.05]''),
     (''hover:bg-slate-700'', ''hover:bg-gray-700''),
     (''hover:bg-slate-600'', ''hover:bg-gray-600''),
     \<comment> \<open>Border slate (specific first)\<close>
     (''border-slate-800/50'', ''border-gray-800''),
     (''border-slate-700/50'', ''border-gray-800''),
     (''border-slate-800'', ''border-gray-800''),
     (''border-slate-700'', ''border-gray-700''),
     \<comment> \<open>Background slate (specific first)\<close>
     (''bg-slate-800/50'', ''bg-white/[0.03]''),
     (''bg-slate-800/30'', ''bg-white/[0.03]''),
     (''bg-slate-800/20'', ''bg-white/[0.03]''),
     (''bg-slate-900/50'', ''bg-gray-900''),
     (''bg-slate-800'', ''bg-gray-800''),
     (''bg-slate-900'', ''bg-gray-900''),
     (''bg-slate-700'', ''bg-gray-700''),
     (''bg-slate-500/20'', ''bg-gray-500/20''),
     \<comment> \<open>Text slate\<close>
     (''text-slate-600'', ''text-gray-500''),
     (''text-slate-500'', ''text-gray-500''),
     (''text-slate-400'', ''text-gray-400''),
     (''text-slate-300'', ''text-gray-300''),
     \<comment> \<open>Emerald to success (specific first)\<close>
     (''border-emerald-500/30'', ''border-success-500/20''),
     (''border-emerald-500/20'', ''border-success-500/15''),
     (''bg-emerald-900/50'', ''bg-success-500/5''),
     (''bg-emerald-900/40'', ''bg-success-500/5''),
     (''bg-emerald-900/30'', ''bg-success-500/5''),
     (''bg-emerald-900/20'', ''bg-success-500/5''),
     (''bg-emerald-900/10'', ''bg-success-500/5''),
     (''bg-emerald-800/20'', ''bg-success-500/5''),
     (''bg-emerald-500/20'', ''bg-success-500/10''),
     (''bg-emerald-500/10'', ''bg-success-500/10''),
     (''bg-emerald-500'', ''bg-success-500''),
     (''bg-emerald-600'', ''bg-success-600''),
     (''hover:bg-emerald-500'', ''hover:bg-success-400''),
     (''text-emerald-300'', ''text-success-300''),
     (''text-emerald-400'', ''text-success-400''),
     (''text-emerald-500'', ''text-success-500''),
     \<comment> \<open>Red to error (specific first)\<close>
     (''bg-red-500/20'', ''bg-error-500/10''),
     (''bg-red-500/10'', ''bg-error-500/10''),
     (''bg-red-900/50'', ''bg-error-500/10''),
     (''bg-red-900/30'', ''bg-error-500/10''),
     (''bg-red-600'', ''bg-error-600''),
     (''bg-red-500'', ''bg-error-500''),
     (''hover:bg-red-500'', ''hover:bg-error-500''),
     (''text-red-400'', ''text-error-400''),
     (''text-red-500'', ''text-error-500''),
     \<comment> \<open>Amber/Yellow to warning\<close>
     (''border-amber-500/30'', ''border-warning-500/20''),
     (''bg-amber-500/10'', ''bg-warning-500/5''),
     (''bg-amber-500/20'', ''bg-warning-500/5''),
     (''bg-amber-500'', ''bg-warning-500''),
     (''text-amber-400'', ''text-warning-400''),
     (''text-yellow-400'', ''text-warning-400''),
     \<comment> \<open>Purple to brand (specific first)\<close>
     (''border-purple-500/30'', ''border-brand-500/20''),
     (''border-purple-500/20'', ''border-brand-500/20''),
     (''bg-purple-900/30'', ''bg-brand-500/10''),
     (''bg-purple-900/20'', ''bg-brand-500/10''),
     (''bg-purple-800/30'', ''bg-brand-500/10''),
     (''bg-purple-500/20'', ''bg-brand-500/10''),
     (''bg-purple-500/10'', ''bg-brand-500/10''),
     (''bg-purple-600'', ''bg-brand-600''),
     (''bg-purple-500'', ''bg-brand-500''),
     (''hover:bg-purple-700'', ''hover:bg-brand-600''),
     (''hover:bg-purple-500'', ''hover:bg-brand-500''),
     (''text-purple-400'', ''text-brand-400''),
     (''text-purple-500'', ''text-brand-500''),
     (''text-purple-300'', ''text-brand-300''),
     (''ring-purple-500'', ''ring-brand-500''),
     (''focus:ring-purple-500'', ''focus:ring-brand-500''),
     \<comment> \<open>Blue to blue-light/brand\<close>
     (''text-blue-400'', ''text-blue-light-400''),
     (''text-blue-300'', ''text-blue-light-300''),
     (''bg-blue-500/20'', ''bg-brand-500/10''),
     (''bg-blue-600'', ''bg-brand-600''),
     (''bg-blue-500'', ''bg-brand-500''),
     \<comment> \<open>Focus ring pattern\<close>
     (''focus:ring-2 focus:ring-brand-500'', ''focus:outline-hidden focus:ring-3 focus:ring-brand-500/10''),
     \<comment> \<open>Remove font-inter\<close>
     ('' font-inter'', ''''),
     (''font-inter '', ''''),
     (''font-inter'', '''')
   ]"

text \<open>\<^verbatim>\<open>FILES\<close>, lines 9 to 31.\<close>

definition FILES :: "string list" where
  "FILES = [
     ''ComparisonMatrix.tsx'',
     ''GhostDataChart.tsx'',
     ''SigmoidEditor.tsx'',
     ''AIScorecard.tsx'',
     ''StrategistInsights.tsx'',
     ''DeadbandGauges.tsx'',
     ''AnomalyLog.tsx'',
     ''AmazonConnect.tsx'',
     ''AuditHistory.tsx'',
     ''GalaxyMap.tsx'',
     ''IntelligenceBriefing.tsx'',
     ''EnterpriseOverview.tsx'',
     ''ProfitCalculator.tsx'',
     ''CampaignBrowser.tsx'',
     ''LiveShadowTicker.tsx'',
     ''MultiAgentTelemetry.tsx'',
     ''UCCLPanel.tsx'',
     ''LogViewer.tsx'',
     ''VerifiedSourceBadge.tsx'',
     ''MissedProfitTicker.tsx'',
     ''DecisionContextModal.tsx''
   ]"

section \<open>The rewrite engine\<close>

text \<open>
  The loop of \<^verbatim>\<open>process_file\<close> (lines 151 and 152):
  \<^verbatim>\<open>for old, new in REPLACEMENTS: content = content.replace(old, new)\<close>,
  with \<open>content\<close> as the state that is passed on.
\<close>

fun apply_replacements :: "string \<Rightarrow> rule list \<Rightarrow> string" where
  "apply_replacements content [] = content"
| "apply_replacements content ((old, new) # rules) =
     apply_replacements (replace content old new) rules"

text \<open>
  The pure part of \<^verbatim>\<open>process_file\<close> (lines 150 to 158, without the file access):
  the operation the specification calls \<open>rewrite(text, rules)\<close>. It returns the final
  text and the flag \<^verbatim>\<open>content != original\<close>.
\<close>

definition rewrite :: "string \<Rightarrow> rule list \<Rightarrow> string \<times> bool" where
  "rewrite text rules =
     (let original = text;
          content = apply_replacements text rules
      in (content, content \<noteq> original))"

section \<open>The file orchestrator\<close>

text \<open>
  The file system maps a path to what is there: nothing, a directory, or a file with its
  permissions and its content, which is either the text that \<^verbatim>\<open>f.read()\<close> returns or
  bytes that do not decode in the default encoding. Every access of the program that
  succeeds is recorded, in order, in \<open>events\<close>, together with the lines it prints.
\<close>

type_synonym path = string

datatype file_content = Text string | Undecodable

datatype node =
    Directory
  | File (readable: bool) (writable: bool) (content: file_content)

datatype io_event =
    Exists path
  | Read path
  | Write path string
  | Print string

record world =
  files :: "path \<rightharpoonup> node"
  events :: "io_event list"

datatype py_error =
    FileNotFoundError
  | IsADirectoryError
  | PermissionError
  | UnicodeDecodeError

text \<open>An uncaught exception ends the run; the world is the one it leaves behind.\<close>

type_synonym 'a result = "(py_error \<times> world) + 'a"

definition emit :: "io_event \<Rightarrow> world \<Rightarrow> world" where
  "emit e w = w\<lparr>events := events w @ [e]\<rparr>"

text \<open>
  \<^verbatim>\<open>process_file(filepath)\<close>, lines 146 to 158. \<^verbatim>\<open>open(filepath, 'r')\<close> raises on a
  path that does not exist, on a directory and on a file without read permission;
  \<^verbatim>\<open>f.read()\<close> raises on bytes that do not decode; \<^verbatim>\<open>open(filepath, 'w')\<close> raises
  on a file without write permission, before anything is written, and otherwise
  \<^verbatim>\<open>f.write(content)\<close> replaces the whole content.
\<close>

definition process_file :: "path \<Rightarrow> world \<Rightarrow> (bool \<times> world) result" where
  "process_file filepath w =
     (case files w filepath of
        None \<Rightarrow> Inl (FileNotFoundError, w)
      | Some Directory \<Rightarrow> Inl (IsADirectoryError, w)
      | Some (File r wr c) \<Rightarrow>
          if \<not> r then Inl (PermissionError, w)
          else (case c of
                  Undecodable \<Rightarrow> Inl (UnicodeDecodeError, w)
                | Text text \<Rightarrow>
                    let w1 = emit (Read filepath) w;
                        original = text;
                        content = apply_replacements text REPLACEMENTS
                    in if content \<noteq> original
                       then (if \<not> wr then Inl (PermissionError, w1)
                             else Inr (True, emit (Write filepath content)
                                    (w1\<lparr>files := (files w1)(filepath \<mapsto> File r wr (Text content))\<rparr>)))
                       else Inr (False, w1)))"

text \<open>
  \<^verbatim>\<open>os.path.join(a, b)\<close> of \<^verbatim>\<open>posixpath\<close>: an absolute \<open>b\<close> replaces \<open>a\<close>;
  otherwise \<open>b\<close> is appended, after a separator unless \<open>a\<close> is empty or ends with one.
\<close>

definition os_path_join :: "path \<Rightarrow> path \<Rightarrow> path" where
  "os_path_join a b =
     (if prefix ''/'' b then b
      else if a = [] \<or> suffix ''/'' a then a @ b
      else a @ ''/'' @ b)"

text \<open>
  \<^verbatim>\<open>COMPONENTS_DIR\<close>, line 7; \<open>script_dir\<close> stands for
  \<^verbatim>\<open>os.path.dirname(os.path.abspath(__file__))\<close>.
\<close>

definition COMPONENTS_DIR :: "path \<Rightarrow> path" where
  "COMPONENTS_DIR script_dir = script_dir @ ''/components''"

text \<open>
  The loop of \<^verbatim>\<open>main\<close>, lines 161 to 167, over the remaining file names.
  \<^verbatim>\<open>os.path.exists\<close> holds of files and of directories. An exception of
  \<^verbatim>\<open>process_file\<close> is not caught: it ends the run before anything is printed for
  the file.
\<close>

fun main_loop :: "path \<Rightarrow> string list \<Rightarrow> world \<Rightarrow> world result" where
  "main_loop dir [] w = Inr w"
| "main_loop dir (filename # rest) w =
     (let filepath = os_path_join dir filename;
          w1 = emit (Exists filepath) w
      in if files w1 filepath \<noteq> None
         then (case process_file filepath w1 of
                 Inl e \<Rightarrow> Inl e
               | Inr (changed, w2) \<Rightarrow>
                   main_loop dir rest
                     (emit (Print ((if changed then ''UPDATED'' else ''NO CHANGES'')
                                     @ '': '' @ filename)) w2))
         else main_loop dir rest (emit (Print (''MISSING: '' @ filename)) w1))"

definition main :: "path \<Rightarrow> world \<Rightarrow> world result" where
  "main script_dir w = main_loop (COMPONENTS_DIR script_dir) FILES w"

text \<open>The world at the end of a run, however it ends.\<close>

definition final_world :: "world result \<Rightarrow> world" where
  "final_world res = (case res of Inl (e, w) \<Rightarrow> w | Inr w \<Rightarrow> w)"

section \<open>Notions used to state the properties\<close>

text \<open>
  The text accumulated after the first \<open>i\<close> rules of a table: the original text for
  \<open>i = 0\<close>, and one pass of rule \<open>i\<close> (counted from 0) over the text accumulated
  after \<open>i\<close> rules for \<open>i + 1\<close>.
\<close>

primrec accumulated :: "string \<Rightarrow> rule list \<Rightarrow> nat \<Rightarrow> string" where
  "accumulated text rules 0 = text"
| "accumulated text rules (Suc i) =
     replace (accumulated text rules i) (fst (rules ! i)) (snd (rules ! i))"

text \<open>
  A pass replaces every literal occurrence of a pattern: wherever the pattern stands in a
  text, the result has the replacement there and the two sides of the occurrence are
  treated in the same way; a text without an occurrence is left as it is.
\<close>

definition replaces_every_occurrence ::
    "string \<Rightarrow> string \<Rightarrow> (string \<Rightarrow> string) \<Rightarrow> bool" where
  "replaces_every_occurrence pattern replacement pass \<longleftrightarrow>
     (\<forall>u v. pass (u @ pattern @ v) = pass u @ replacement @ pass v) \<and>
     (\<forall>s. \<not> sublist pattern s \<longrightarrow> pass s = s)"

text \<open>
  A pattern has a border when a proper, non-empty prefix of it is also a suffix of it;
  two occurrences of a pattern can overlap only if it has one.
\<close>

definition border_free :: "string \<Rightarrow> bool" where
  "border_free p = list_all (\<lambda>k. take k p \<noteq> drop (length p - k) p) [1..<length p]"

text \<open>
  How an occurrence of a pattern \<open>p\<close> can overlap an occurrence of a marker \<open>m\<close> in a
  text: \<open>p\<close> starts inside \<open>m\<close>, at offset \<open>d\<close>, or \<open>p\<close> starts \<open>k\<close> characters
  before \<open>m\<close>. Either is possible only where the two agree on the characters they share.
\<close>

definition comparable :: "string \<Rightarrow> string \<Rightarrow> bool" where
  "comparable a b \<longleftrightarrow> prefix a b \<or> prefix b a"

definition starts_inside :: "string \<Rightarrow> string \<Rightarrow> nat list" where
  "starts_inside p m = [d \<leftarrow> [0..<length m]. comparable (drop d m) p]"

definition starts_before :: "string \<Rightarrow> string \<Rightarrow> nat list" where
  "starts_before p m = [k \<leftarrow> [1..<length p]. comparable (drop k p) m]"

definition clear_of :: "string \<Rightarrow> rule \<Rightarrow> bool" where
  "clear_of m rl \<longleftrightarrow> starts_inside (fst rl) m = [] \<and> starts_before (fst rl) m = []"

text \<open>
  The ordering discipline of the table, ``more specific patterns first'' (line 33): no
  pattern is a proper substring of the pattern of a later rule.
\<close>

definition most_specific_first :: "rule list \<Rightarrow> bool" where
  "most_specific_first rules =
     list_all (\<lambda>j. list_all (\<lambda>i. \<not> strict_sublist (fst (rules ! i)) (fst (rules ! j))) [0..<j])
       [0..<length rules]"

section \<open>One pass of \<open>replace\<close>\<close>

text \<open>
  What a single pass does: nothing without an occurrence; for a pattern without a border,
  the replacement at every occurrence; in general, the replacement between the fragments
  that the leftmost occurrences cut the text into. A marker that no occurrence of the
  pattern can overlap stays where it is, and the pass works on its two sides apart.
\<close>

lemma replace_no_occurrence:
  "\<not> sublist old s \<Longrightarrow> replace s old new = s"
proof (induction s)
  case Nil
  then show ?case by auto
next
  case (Cons c cs)
  from Cons.prems have ne: "old \<noteq> []" by auto
  from Cons.prems have np: "\<not> prefix old (c # cs)"
    using prefix_imp_sublist by blast
  from Cons.prems have "\<not> sublist old cs"
    by (meson sublist_Cons_right)
  with Cons.IH ne np show ?case by simp
qed

lemma replace_prefix_step:
  "old \<noteq> [] \<Longrightarrow> replace (old @ v) old new = new @ replace v old new"
  by (cases old) auto

lemma border_freeD:
  assumes "border_free p" "1 \<le> k" "k < length p"
  shows "take k p \<noteq> drop (length p - k) p"
  using assms by (auto simp: border_free_def list_all_iff)

lemma no_straddle_border_free:
  assumes bf: "border_free p" and u: "u \<noteq> []" and np: "\<not> prefix p u"
  shows "\<not> prefix p (u @ p @ v)"
proof
  assume pre: "prefix p (u @ p @ v)"
  with np obtain w where pu: "p = u @ w" and pw: "prefix w (p @ v)"
    unfolding prefix_append by blast
  from pu np have w: "w \<noteq> []" by auto
  from pu u have lt: "length w < length p" by auto
  from pw have "prefix w p \<or> (\<exists>us. w = p @ us \<and> prefix us v)"
    unfolding prefix_append .
  with lt have "prefix w p" by auto
  then have tk: "take (length w) p = w"
    unfolding prefix_def by auto
  from pu have dr: "drop (length p - length w) p = w" by simp
  from w have "1 \<le> length w" by (cases w) auto
  from border_freeD [OF bf this lt] tk dr show False by simp
qed

lemma replace_at_occurrence:
  assumes bf: "border_free p" and ne: "p \<noteq> []"
  shows "replace (u @ p @ v) p r = replace u p r @ r @ replace v p r"
  using assms
proof (induction u p r rule: replace.induct)
  case (1 old new)
  then show ?case by (simp add: replace_prefix_step)
next
  case (2 c cs old new)
  show ?case
  proof (cases "prefix old (c # cs)")
    case True
    then obtain t where t: "c # cs = old @ t" unfolding prefix_def by blast
    then have dr: "drop (length old) (c # cs) = t" by simp
    from "2.IH"(2) [OF "2.prems"(2) True "2.prems"] dr
    have ih: "replace (t @ old @ v) old new = replace t old new @ new @ replace v old new"
      by simp
    have "replace ((c # cs) @ old @ v) old new = replace (old @ (t @ old @ v)) old new"
      unfolding t by simp
    also have "\<dots> = new @ replace (t @ old @ v) old new"
      by (rule replace_prefix_step [OF "2.prems"(2)])
    also have "\<dots> = (new @ replace t old new) @ new @ replace v old new"
      unfolding ih by simp
    also have "new @ replace t old new = replace (c # cs) old new"
      unfolding t by (rule replace_prefix_step [OF "2.prems"(2), symmetric])
    finally show ?thesis .
  next
    case False
    have ns: "\<not> prefix old ((c # cs) @ old @ v)"
      by (rule no_straddle_border_free [OF "2.prems"(1) _ False]) simp
    from "2.IH"(3) [OF "2.prems"(2) False "2.prems"]
    have ih: "replace (cs @ old @ v) old new = replace cs old new @ new @ replace v old new" .
    from ns have "replace ((c # cs) @ old @ v) old new = c # replace (cs @ old @ v) old new"
      using "2.prems"(2) by simp
    also have "\<dots> = (c # replace cs old new) @ new @ replace v old new"
      unfolding ih by simp
    also have "c # replace cs old new = replace (c # cs) old new"
      using False "2.prems"(2) by simp
    finally show ?thesis .
  qed
qed

lemma join_Cons:
  "us \<noteq> [] \<Longrightarrow> join sep (x # us) = x @ sep @ join sep us"
  by (cases us) auto

lemma join_push:
  "join sep ((c # x) # xs) = c # join sep (x # xs)"
  by (cases xs) auto

lemma join_prefix:
  "prefix x (join sep (x # xs))"
  by (cases xs) auto

lemma join_Nil_concat:
  "join [] us = concat us"
proof (induction us)
  case Nil
  then show ?case by simp
next
  case (Cons x us)
  then show ?case by (cases us) auto
qed

lemma replace_segments:
  assumes "p \<noteq> []"
  shows "\<exists>us. us \<noteq> [] \<and> s = join p us \<and> (\<forall>u \<in> set us. \<not> sublist p u)
              \<and> replace s p r = join r us"
  using assms
proof (induction s p r rule: replace.induct)
  case (1 old new)
  then have "[[]] \<noteq> [] \<and> [] = join old [[]] \<and> (\<forall>u \<in> set [[]]. \<not> sublist old u)
              \<and> replace [] old new = join new [[]]"
    by simp
  then show ?case by blast
next
  case (2 c cs old new)
  show ?case
  proof (cases "prefix old (c # cs)")
    case True
    then obtain t where t: "c # cs = old @ t" unfolding prefix_def by blast
    then have dr: "drop (length old) (c # cs) = t" by simp
    from "2.IH"(2) [OF "2.prems" True "2.prems"] dr
    obtain us where us: "us \<noteq> []" "t = join old us" "\<forall>u \<in> set us. \<not> sublist old u"
        "replace t old new = join new us"
      by auto
    have "replace (c # cs) old new = new @ replace t old new"
      unfolding t by (rule replace_prefix_step [OF "2.prems"])
    with us t "2.prems"
    have "[] # us \<noteq> [] \<and> c # cs = join old ([] # us)
            \<and> (\<forall>u \<in> set ([] # us). \<not> sublist old u)
            \<and> replace (c # cs) old new = join new ([] # us)"
      by (simp add: join_Cons)
    then show ?thesis by blast
  next
    case False
    from "2.IH"(3) [OF "2.prems" False "2.prems"]
    obtain us where us: "us \<noteq> []" "cs = join old us" "\<forall>u \<in> set us. \<not> sublist old u"
        "replace cs old new = join new us"
      by auto
    from us(1) obtain x xs where xs: "us = x # xs" by (cases us) auto
    have "prefix (c # x) (c # cs)"
      unfolding us(2) xs using join_prefix by simp
    with False have np: "\<not> prefix old (c # x)"
      using prefix_order.trans by blast
    from us(3) xs have "\<not> sublist old x" by simp
    with np have nx: "\<not> sublist old (c # x)"
      by (simp add: sublist_Cons_right)
    have rc: "replace (c # cs) old new = c # replace cs old new"
      using False "2.prems" by simp
    from us xs nx rc
    have "(c # x) # xs \<noteq> [] \<and> c # cs = join old ((c # x) # xs)
            \<and> (\<forall>u \<in> set ((c # x) # xs). \<not> sublist old u)
            \<and> replace (c # cs) old new = join new ((c # x) # xs)"
      by (simp add: join_push)
    then show ?thesis by blast
  qed
qed

lemma replace_fires:
  assumes "p \<noteq> []" "sublist p t"
  shows "\<exists>a b. t = a @ p @ b \<and> replace t p r = a @ r @ replace b p r"
  using assms
proof (induction t p r rule: replace.induct)
  case (1 old new)
  then show ?case by simp
next
  case (2 c cs old new)
  show ?case
  proof (cases "prefix old (c # cs)")
    case True
    then obtain b where b: "c # cs = old @ b" unfolding prefix_def by blast
    have "replace (c # cs) old new = new @ replace b old new"
      unfolding b by (rule replace_prefix_step [OF "2.prems"(1)])
    with b have "c # cs = [] @ old @ b \<and> replace (c # cs) old new = [] @ new @ replace b old new"
      by simp
    then show ?thesis by blast
  next
    case False
    with "2.prems"(2) have "sublist old cs" by (simp add: sublist_Cons_right)
    from "2.IH"(3) [OF "2.prems"(1) False "2.prems"(1) this]
    obtain a b where ab: "cs = a @ old @ b" "replace cs old new = a @ new @ replace b old new"
      by blast
    have "replace (c # cs) old new = c # replace cs old new"
      using False "2.prems"(1) by simp
    with ab have "c # cs = (c # a) @ old @ b
                  \<and> replace (c # cs) old new = (c # a) @ new @ replace b old new"
      by simp
    then show ?thesis by blast
  qed
qed

lemma starts_insideD:
  assumes "starts_inside p m = []" "d < length m"
  shows "\<not> comparable (drop d m) p"
  using assms by (auto simp: starts_inside_def filter_empty_conv)

lemma prefix_append_comparable:
  "prefix a (b @ v) \<Longrightarrow> comparable a b"
  unfolding comparable_def prefix_append by auto

lemma replace_keeps_marker_front:
  "\<forall>d < length m. \<not> comparable (drop d m) p \<Longrightarrow> replace (m @ v) p r = m @ replace v p r"
proof (induction m)
  case Nil
  then show ?case by simp
next
  case (Cons c m)
  from Cons.prems have c0: "\<not> comparable (c # m) p" by force
  then have ne: "p \<noteq> []" by (auto simp: comparable_def)
  from c0 have np: "\<not> prefix p (c # m @ v)"
    using prefix_append_comparable [of p "c # m" v] by (auto simp: comparable_def)
  have "\<forall>d < length m. \<not> comparable (drop d m) p"
  proof (intro allI impI)
    fix d assume "d < length m"
    then have "Suc d < length (c # m)" by simp
    with Cons.prems have "\<not> comparable (drop (Suc d) (c # m)) p" by blast
    then show "\<not> comparable (drop d m) p" by simp
  qed
  from Cons.IH [OF this] ne np show ?case by simp
qed

lemma replace_around_marker_aux:
  assumes "p \<noteq> []"
    and "\<forall>d < length m. \<not> comparable (drop d m) p"
    and "\<forall>k. 1 \<le> k \<and> k < length p \<and> comparable (drop k p) m \<longrightarrow> \<not> suffix (take k p) u"
  shows "replace (u @ m @ v) p r = replace u p r @ m @ replace v p r"
  using assms
proof (induction u p r rule: replace.induct)
  case (1 old new)
  then show ?case by (simp add: replace_keeps_marker_front)
next
  case (2 c cs old new)
  note ne = "2.prems"(1) and ins = "2.prems"(2) and bef = "2.prems"(3)
  show ?case
  proof (cases "prefix old (c # cs)")
    case True
    then obtain t where t: "c # cs = old @ t" unfolding prefix_def by blast
    then have dr: "drop (length old) (c # cs) = t" by simp
    have bef': "\<forall>k. 1 \<le> k \<and> k < length old \<and> comparable (drop k old) m
                  \<longrightarrow> \<not> suffix (take k old) t"
      using bef unfolding t by (blast intro: suffix_appendI)
    from "2.IH"(2) [OF ne True ne ins] bef' dr
    have ih: "replace (t @ m @ v) old new = replace t old new @ m @ replace v old new"
      by simp
    have "replace ((c # cs) @ m @ v) old new = replace (old @ (t @ m @ v)) old new"
      unfolding t by simp
    also have "\<dots> = new @ replace (t @ m @ v) old new"
      by (rule replace_prefix_step [OF ne])
    also have "\<dots> = (new @ replace t old new) @ m @ replace v old new"
      unfolding ih by simp
    also have "new @ replace t old new = replace (c # cs) old new"
      unfolding t by (rule replace_prefix_step [OF ne, symmetric])
    finally show ?thesis .
  next
    case False
    have ns: "\<not> prefix old ((c # cs) @ m @ v)"
    proof
      assume "prefix old ((c # cs) @ m @ v)"
      with False obtain w where pu: "old = (c # cs) @ w" and pw: "prefix w (m @ v)"
        unfolding prefix_append by blast
      from pu False have w: "w \<noteq> []" by auto
      from pw have cmp: "comparable w m" by (rule prefix_append_comparable)
      let ?k = "length (c # cs)"
      from pu w have k: "1 \<le> ?k \<and> ?k < length old" by auto
      from pu have "drop ?k old = w" "take ?k old = c # cs" by simp_all
      with bef k cmp have "\<not> suffix (c # cs) (c # cs)" by metis
      then show False by simp
    qed
    have bef': "\<forall>k. 1 \<le> k \<and> k < length old \<and> comparable (drop k old) m
                  \<longrightarrow> \<not> suffix (take k old) cs"
      using bef by (blast intro: suffix_ConsI)
    from "2.IH"(3) [OF ne False ne ins bef']
    have ih: "replace (cs @ m @ v) old new = replace cs old new @ m @ replace v old new" .
    from ns have "replace ((c # cs) @ m @ v) old new = c # replace (cs @ m @ v) old new"
      using ne by simp
    also have "\<dots> = (c # replace cs old new) @ m @ replace v old new"
      unfolding ih by simp
    also have "c # replace cs old new = replace (c # cs) old new"
      using False ne by simp
    finally show ?thesis .
  qed
qed

lemma replace_around_marker:
  assumes inside: "starts_inside p m = []"
    and before: "\<forall>k \<in> set (starts_before p m). \<not> suffix (take k p) u"
    and m: "m \<noteq> []"
  shows "replace (u @ m @ v) p r = replace u p r @ m @ replace v p r"
proof (rule replace_around_marker_aux)
  show ins: "\<forall>d < length m. \<not> comparable (drop d m) p"
    using inside starts_insideD by blast
  from m have "0 < length m" by simp
  with ins have "\<not> comparable (drop 0 m) p" by blast
  then show "p \<noteq> []" by (auto simp: comparable_def)
  show "\<forall>k. 1 \<le> k \<and> k < length p \<and> comparable (drop k p) m \<longrightarrow> \<not> suffix (take k p) u"
    using before by (auto simp: starts_before_def)
qed

lemma replace_unchanged_if_no_last:
  assumes "p \<noteq> []" "r \<noteq> []" "last r \<notin> set (replace s p r)"
  shows "replace s p r = s"
  using assms
proof (induction s p r rule: replace.induct)
  case (1 old new)
  then show ?case by simp
next
  case (2 c cs old new)
  show ?case
  proof (cases "prefix old (c # cs)")
    case True
    with "2.prems" have "last new \<in> set (replace (c # cs) old new)" by simp
    with "2.prems" show ?thesis by blast
  next
    case False
    with "2.prems" "2.IH"(3) show ?thesis by simp
  qed
qed

lemma suffix_replace:
  assumes "p \<noteq> []" "r \<noteq> []" "last r \<notin> set w" "suffix w (replace u p r)"
  shows "suffix w u"
  using assms
proof (induction u p r rule: replace.induct)
  case (1 old new)
  then show ?case by simp
next
  case (2 c cs old new)
  note ne = "2.prems"(1) and rne = "2.prems"(2) and lw = "2.prems"(3) and sw = "2.prems"(4)
  show ?case
  proof (cases "prefix old (c # cs)")
    case True
    then obtain t where t: "c # cs = old @ t" unfolding prefix_def by blast
    then have dr: "drop (length old) (c # cs) = t" by simp
    have rp: "replace (c # cs) old new = new @ replace t old new"
      unfolding t by (rule replace_prefix_step [OF ne])
    from sw rp have "suffix w (new @ replace t old new)" by simp
    then have "suffix w (replace t old new)
               \<or> (\<exists>xs. w = xs @ replace t old new \<and> suffix xs new)"
      unfolding suffix_append .
    then have "suffix w (replace t old new)"
    proof
      assume "suffix w (replace t old new)"
      then show ?thesis .
    next
      assume "\<exists>xs. w = xs @ replace t old new \<and> suffix xs new"
      then obtain xs where xs: "w = xs @ replace t old new" "suffix xs new" by blast
      show ?thesis
      proof (cases "xs = []")
        case True
        with xs show ?thesis by simp
      next
        case False
        with xs(2) have "last xs = last new"
          by (auto simp: suffix_def)
        with False xs(1) have "last new \<in> set w" by (metis last_in_set Un_iff set_append)
        with lw show ?thesis by blast
      qed
    qed
    from "2.IH"(2) [OF ne True ne rne lw] this dr have "suffix w t" by simp
    then show ?thesis unfolding t by (rule suffix_appendI)
  next
    case False
    then have rp: "replace (c # cs) old new = c # replace cs old new"
      using ne by simp
    from sw rp have "w = c # replace cs old new \<or> suffix w (replace cs old new)"
      by (simp add: suffix_Cons)
    then show ?thesis
    proof
      assume w: "w = c # replace cs old new"
      with lw have "last new \<notin> set (replace cs old new)" by simp
      from replace_unchanged_if_no_last [OF ne rne this] w show ?thesis by simp
    next
      assume "suffix w (replace cs old new)"
      from "2.IH"(3) [OF ne False ne rne lw this] show ?thesis by (rule suffix_ConsI)
    qed
  qed
qed

section \<open>A run over a rule list\<close>

lemma apply_replacements_append:
  "apply_replacements s (xs @ ys) = apply_replacements (apply_replacements s xs) ys"
  by (induction xs arbitrary: s) auto

lemma apply_replacements_split:
  "apply_replacements s (xs @ (p1, r1) # ys @ (p2, r2) # zs)
     = apply_replacements
         (replace (apply_replacements (replace (apply_replacements s xs) p1 r1) ys) p2 r2) zs"
  by (simp add: apply_replacements_append)

lemma apply_replacements_split1:
  "apply_replacements s (xs @ (p, r) # ys)
     = apply_replacements (replace (apply_replacements s xs) p r) ys"
  by (simp add: apply_replacements_append)

lemma accumulated_take:
  "i \<le> length rules \<Longrightarrow> accumulated text rules i = apply_replacements text (take i rules)"
proof (induction i)
  case 0
  then show ?case by simp
next
  case (Suc i)
  then have lt: "i < length rules" by simp
  obtain p r where pr: "rules ! i = (p, r)" by (cases "rules ! i")
  from lt have "take (Suc i) rules = take i rules @ [rules ! i]"
    by (rule take_Suc_conv_app_nth)
  with Suc.IH lt pr show ?case
    by (simp add: apply_replacements_append)
qed

lemma accumulated_all:
  "accumulated text rules (length rules) = apply_replacements text rules"
  by (simp add: accumulated_take)

lemma rewrite_eq:
  "rewrite s rules = (apply_replacements s rules, apply_replacements s rules \<noteq> s)"
  by (simp add: rewrite_def Let_def)

lemma apply_replacements_no_occurrence:
  "\<forall>(p, r) \<in> set rules. \<not> sublist p s \<Longrightarrow> apply_replacements s rules = s"
  by (induction rules) (auto simp: replace_no_occurrence)

lemma apply_replacements_around_marker:
  assumes "m \<noteq> []" "list_all (clear_of m) rules"
  shows "apply_replacements (u @ m @ v) rules
           = apply_replacements u rules @ m @ apply_replacements v rules"
  using assms(2)
proof (induction rules arbitrary: u v)
  case Nil
  then show ?case by simp
next
  case (Cons rl rules)
  obtain p r where rl: "rl = (p, r)" by (cases rl)
  from Cons.prems rl have "starts_inside p m = []" "starts_before p m = []"
    by (simp_all add: clear_of_def)
  then have "replace (u @ m @ v) p r = replace u p r @ m @ replace v p r"
    using assms(1) by (intro replace_around_marker) simp_all
  with Cons rl show ?case by simp
qed

lemma suffix_apply_replacements:
  assumes "list_all (\<lambda>(p, r). p \<noteq> [] \<and> r \<noteq> [] \<and> last r \<notin> set w) rules"
    and "suffix w (apply_replacements u rules)"
  shows "suffix w u"
  using assms
proof (induction rules arbitrary: u)
  case Nil
  then show ?case by simp
next
  case (Cons rl rules)
  obtain p r where rl: "rl = (p, r)" by (cases rl)
  from Cons.prems rl have "suffix w (replace u p r)"
    using Cons.IH [of "replace u p r"] by simp
  with Cons.prems(1) rl show ?case by (auto intro: suffix_replace)
qed

section \<open>Facts of the rule table\<close>

text \<open>Each of these is decided by evaluating the table.\<close>

lemma length_REPLACEMENTS: "length REPLACEMENTS = 84"
  by (simp add: REPLACEMENTS_def)

lemma table_border_free:
  "list_all (\<lambda>(p, r). p \<noteq> [] \<and> border_free p) REPLACEMENTS"
  by code_simp

lemma nth_38: "REPLACEMENTS ! 38 = (''bg-emerald-500'', ''bg-success-500'')"
  by (simp add: REPLACEMENTS_def)

lemma nth_40: "REPLACEMENTS ! 40 = (''hover:bg-emerald-500'', ''hover:bg-success-400'')"
  by (simp add: REPLACEMENTS_def)

lemma sub_38_40: "strict_sublist ''bg-emerald-500'' ''hover:bg-emerald-500''"
  by code_simp

lemma nth_73: "REPLACEMENTS ! 73 = (''ring-purple-500'', ''ring-brand-500'')"
  by (simp add: REPLACEMENTS_def)

lemma nth_80: "REPLACEMENTS ! 80 = (''focus:ring-2 focus:ring-brand-500'',
                  ''focus:outline-hidden focus:ring-3 focus:ring-brand-500/10'')"
  by (simp add: REPLACEMENTS_def)

lemma nth_83: "REPLACEMENTS ! 83 = (''font-inter'', [])"
  by (simp add: REPLACEMENTS_def)

lemma table_split_at_bg_slate_800_50:
  "REPLACEMENTS = take 6 REPLACEMENTS
      @ (''hover:bg-slate-800/50'', ''hover:bg-white/[0.05]'') # take 9 (drop 7 REPLACEMENTS)
      @ (''bg-slate-800/50'', ''bg-white/[0.03]'') # drop 17 REPLACEMENTS"
  by (simp add: REPLACEMENTS_def)

lemma clear_before_hover:
  "list_all (clear_of ''bg-slate-800/50'') (take 6 REPLACEMENTS)"
  by code_simp

lemma clear_between:
  "list_all (clear_of ''bg-slate-800/50'') (take 9 (drop 7 REPLACEMENTS))"
  by code_simp

lemma clear_after:
  "list_all (clear_of ''bg-white/[0.03]'') (drop 17 REPLACEMENTS)"
  by code_simp

lemma hover_rule_overlap:
  "starts_inside ''hover:bg-slate-800/50'' ''bg-slate-800/50'' = []"
  "starts_before ''hover:bg-slate-800/50'' ''bg-slate-800/50'' = [6]"
  "take 6 ''hover:bg-slate-800/50'' = ''hover:''"
  by code_simp+

lemma no_hover_suffix_made:
  "list_all (\<lambda>(p, r). p \<noteq> [] \<and> r \<noteq> [] \<and> last r \<notin> set ''hover:'') (take 6 REPLACEMENTS)"
  by code_simp

lemma border_free_bg_slate_800_50: "border_free ''bg-slate-800/50''"
  by code_simp

lemma no_replacement_has_font_inter:
  "list_all (\<lambda>(p, r). \<not> sublist ''font-inter'' r) REPLACEMENTS"
  by code_simp

lemma no_pattern_in_bg_gray_800:
  "list_all (\<lambda>(p, r). \<not> sublist p ''bg-gray-800'') REPLACEMENTS"
  by code_simp

lemma table_split_at_hover:
  "REPLACEMENTS = take 6 REPLACEMENTS
      @ (''hover:bg-slate-800/50'', ''hover:bg-white/[0.05]'') # drop 7 REPLACEMENTS"
  by (simp add: REPLACEMENTS_def)

lemma clear_hover_before:
  "list_all (clear_of ''hover:bg-slate-800/50'') (take 6 REPLACEMENTS)"
  by code_simp

lemma clear_hover_after:
  "list_all (clear_of ''hover:bg-white/[0.05]'') (drop 7 REPLACEMENTS)"
  by code_simp

lemma border_free_hover: "border_free ''hover:bg-slate-800/50''"
  by code_simp

lemma table_split_at_ring:
  "REPLACEMENTS = take 73 REPLACEMENTS
      @ (''ring-purple-500'', ''ring-brand-500'') # take 6 (drop 74 REPLACEMENTS)
      @ (''focus:ring-2 focus:ring-brand-500'',
         ''focus:outline-hidden focus:ring-3 focus:ring-brand-500/10'') # drop 81 REPLACEMENTS"
  by (simp add: REPLACEMENTS_def)

lemma takes_ring:
  "take 74 REPLACEMENTS = take 73 REPLACEMENTS @ [(''ring-purple-500'', ''ring-brand-500'')]"
  "take 80 REPLACEMENTS = take 73 REPLACEMENTS
      @ (''ring-purple-500'', ''ring-brand-500'') # take 6 (drop 74 REPLACEMENTS)"
  "take 81 REPLACEMENTS = take 73 REPLACEMENTS
      @ (''ring-purple-500'', ''ring-brand-500'') # take 6 (drop 74 REPLACEMENTS)
      @ [(''focus:ring-2 focus:ring-brand-500'',
          ''focus:outline-hidden focus:ring-3 focus:ring-brand-500/10'')]"
  by (simp_all add: REPLACEMENTS_def)

lemma clear_ring_before:
  "list_all (clear_of ''focus:ring-2 focus:ring-purple-500'') (take 73 REPLACEMENTS)"
  by code_simp

lemma clear_ring_between:
  "list_all (clear_of ''focus:ring-2 focus:ring-brand-500'') (take 6 (drop 74 REPLACEMENTS))"
  by code_simp

lemma clear_ring_after:
  "list_all (clear_of ''focus:outline-hidden focus:ring-3 focus:ring-brand-500/10'')
     (drop 81 REPLACEMENTS)"
  by code_simp

lemma ring_rule_overlap:
  "starts_inside ''ring-purple-500'' ''focus:ring-2 focus:'' = []"
  "starts_before ''ring-purple-500'' ''focus:ring-2 focus:'' = []"
  by code_simp+

lemma border_free_ring:
  "border_free ''ring-purple-500''"
  "border_free ''focus:ring-2 focus:ring-brand-500''"
  by code_simp+

lemma replace_inside_focus_ring:
  "replace (a @ ''focus:ring-2 focus:ring-purple-500'' @ b) ''ring-purple-500'' ''ring-brand-500''
     = replace a ''ring-purple-500'' ''ring-brand-500'' @ ''focus:ring-2 focus:ring-brand-500''
       @ replace b ''ring-purple-500'' ''ring-brand-500''"
proof -
  let ?p = "''ring-purple-500''" and ?r = "''ring-brand-500''" and ?f = "''focus:ring-2 focus:''"
  have e1: "replace ((a @ ?f) @ ?p @ b) ?p ?r = replace (a @ ?f) ?p ?r @ ?r @ replace b ?p ?r"
    by (rule replace_at_occurrence [OF border_free_ring(1)]) simp
  have "replace (a @ ?f @ []) ?p ?r = replace a ?p ?r @ ?f @ replace [] ?p ?r"
    by (rule replace_around_marker) (simp_all add: ring_rule_overlap)
  then have e2: "replace (a @ ?f) ?p ?r = replace a ?p ?r @ ?f"
    by simp
  have eq: "a @ ''focus:ring-2 focus:ring-purple-500'' @ b = (a @ ?f) @ ?p @ b"
    by simp
  have "replace (a @ ''focus:ring-2 focus:ring-purple-500'' @ b) ?p ?r
          = replace ((a @ ?f) @ ?p @ b) ?p ?r"
    by (simp only: eq)
  also have "\<dots> = replace (a @ ?f) ?p ?r @ ?r @ replace b ?p ?r"
    by (rule e1)
  also have "\<dots> = (replace a ?p ?r @ ?f) @ ?r @ replace b ?p ?r"
    by (simp only: e2)
  also have "\<dots> = replace a ?p ?r @ ''focus:ring-2 focus:ring-brand-500'' @ replace b ?p ?r"
    by simp
  finally show ?thesis .
qed

section \<open>Runs on some texts\<close>

lemma rewrite_text_slate_600:
  "rewrite ''text-slate-600'' REPLACEMENTS = (''text-gray-500'', True)"
  by code_simp

lemma rewrite_text_gray_500:
  "rewrite ''text-gray-500'' REPLACEMENTS = (''text-gray-500'', False)"
  by code_simp

lemma rewrite_slate_800_font_inter:
  "rewrite ''bg-slate-800 font-inter'' REPLACEMENTS = (''bg-gray-800'', True)"
  by code_simp

lemma rewrite_p4: "rewrite ''p-4 '' REPLACEMENTS = (''p-4 '', False)"
  by code_simp

lemma rewrite_m1: "rewrite '' m-1'' REPLACEMENTS = ('' m-1'', False)"
  by code_simp

lemma rewrite_focus_ring_73:
  "rewrite ''focus:ring-2 focus:ring-purple-500'' (take 73 REPLACEMENTS)
     = (''focus:ring-2 focus:ring-purple-500'', False)"
  by code_simp

lemma apply_text_slate_600:
  "apply_replacements ''text-slate-600'' REPLACEMENTS = ''text-gray-500''"
  using rewrite_text_slate_600 by (simp add: rewrite_eq)

lemma apply_text_gray_500:
  "apply_replacements ''text-gray-500'' REPLACEMENTS = ''text-gray-500''"
  using rewrite_text_gray_500 by (simp add: rewrite_eq)

section \<open>Runs of the orchestrator\<close>

text \<open>
  Whatever the file system holds and however a run ends, it only adds to the record of
  events and creates no file. Where every path holds a readable and writable text file
  (or nothing), no step raises.
\<close>

lemma process_file_Inr:
  assumes "process_file filepath w = Inr (changed, w')"
  shows "prefix (events w) (events w')"
    and "files w q = None \<Longrightarrow> files w' q = None"
  using assms
  by (auto simp: process_file_def emit_def Let_def
           split: option.splits node.splits file_content.splits if_splits)

lemma process_file_Inl:
  assumes "process_file filepath w = Inl (e, w')"
  shows "prefix (events w) (events w')" and "files w' = files w"
  using assms
  by (auto simp: process_file_def emit_def Let_def
           split: option.splits node.splits file_content.splits if_splits)

lemma main_loop_final:
  "prefix (events w) (events (final_world (main_loop dir names w)))
   \<and> (files w q = None \<longrightarrow> files (final_world (main_loop dir names w)) q = None)"
proof (induction names arbitrary: w)
  case Nil
  then show ?case by (simp add: final_world_def)
next
  case (Cons filename rest)
  let ?p = "os_path_join dir filename"
  let ?w1 = "emit (Exists ?p) w"
  have w1: "prefix (events w) (events ?w1)" "files ?w1 = files w"
    by (simp_all add: emit_def)
  show ?case
  proof (cases "files w ?p")
    case None
    let ?w2 = "emit (Print (''MISSING: '' @ filename)) ?w1"
    have r: "main_loop dir (filename # rest) w = main_loop dir rest ?w2"
      using None by (simp add: emit_def Let_def)
    have "prefix (events w) (events ?w2)" "files ?w2 = files w"
      by (simp_all add: emit_def)
    with Cons.IH [of ?w2] show ?thesis
      unfolding r using prefix_order.trans by fastforce
  next
    case (Some n)
    show ?thesis
    proof (cases "process_file ?p ?w1")
      case (Inl ew)
      obtain e w' where ew: "ew = (e, w')" by (cases ew)
      have r: "main_loop dir (filename # rest) w = Inl (e, w')"
        using Some Inl ew by (simp add: emit_def Let_def)
      from process_file_Inl [OF Inl [unfolded ew]] w1
      show ?thesis unfolding r
        using prefix_order.trans by (fastforce simp: final_world_def)
    next
      case (Inr cw)
      obtain changed w2 where cw: "cw = (changed, w2)" by (cases cw)
      let ?w3 = "emit (Print ((if changed then ''UPDATED'' else ''NO CHANGES'')
                                     @ '': '' @ filename)) w2"
      have r: "main_loop dir (filename # rest) w = main_loop dir rest ?w3"
        using Some Inr cw by (simp add: emit_def Let_def)
      from process_file_Inr [OF Inr [unfolded cw]] w1
      have "prefix (events w) (events ?w3)" "files w q = None \<Longrightarrow> files ?w3 q = None"
        using prefix_order.trans by (fastforce simp: emit_def)+
      with Cons.IH [of ?w3] show ?thesis
        unfolding r using prefix_order.trans by fastforce
    qed
  qed
qed

lemma main_loop_returns:
  assumes "\<forall>p n. files w p = Some n \<longrightarrow> (\<exists>t. n = File True True (Text t))"
  shows "\<exists>w'. main_loop dir names w = Inr w'"
  using assms
proof (induction names arbitrary: w)
  case Nil
  then show ?case by simp
next
  case (Cons filename rest)
  let ?p = "os_path_join dir filename"
  show ?case
  proof (cases "files w ?p")
    case None
    have "\<forall>p n. files (emit (Print (''MISSING: '' @ filename)) (emit (Exists ?p) w)) p = Some n
            \<longrightarrow> (\<exists>t. n = File True True (Text t))"
      using Cons.prems by (simp add: emit_def)
    from Cons.IH [OF this] None show ?thesis by (simp add: emit_def Let_def)
  next
    case (Some n)
    with Cons.prems obtain t where n: "n = File True True (Text t)" by blast
    let ?c = "apply_replacements t REPLACEMENTS"
    show ?thesis
    proof (cases "?c = t")
      case True
      let ?w3 = "emit (Print (''NO CHANGES: '' @ filename)) (emit (Read ?p) (emit (Exists ?p) w))"
      have r: "main_loop dir (filename # rest) w = main_loop dir rest ?w3"
        using Some n True by (simp add: process_file_def emit_def Let_def)
      have "\<forall>p n. files ?w3 p = Some n \<longrightarrow> (\<exists>t. n = File True True (Text t))"
        using Cons.prems by (simp add: emit_def)
      from Cons.IH [OF this] show ?thesis unfolding r .
    next
      case False
      let ?w3 = "emit (Print (''UPDATED: '' @ filename)) (emit (Write ?p ?c)
                   ((emit (Read ?p) (emit (Exists ?p) w))
                      \<lparr>files := (files w)(?p \<mapsto> File True True (Text ?c))\<rparr>))"
      have r: "main_loop dir (filename # rest) w = main_loop dir rest ?w3"
        using Some n False by (simp add: process_file_def emit_def Let_def)
      have "\<forall>p n. files ?w3 p = Some n \<longrightarrow> (\<exists>t. n = File True True (Text t))"
        using Cons.prems by (simp add: emit_def)
      from Cons.IH [OF this] show ?thesis unfolding r .
    qed
  qed
qed

lemma join_LogViewer:
  "os_path_join ''/app/components'' ''LogViewer.tsx'' = ''/app/components/LogViewer.tsx''"
  by (simp add: os_path_join_def suffix_to_prefix)

section \<open>The properties of the specification\<close>

text \<open>
  C1. The rewrite goes through the rule table in its order: its result is the text
  accumulated after all 84 rules, where the text accumulated after rule \<open>i\<close> is the input
  of rule \<open>i + 1\<close>; and for every rule of the table one pass replaces every literal
  occurrence of the pattern, however many there are.
\<close>

theorem rewrite_in_table_order:
  "fst (rewrite text REPLACEMENTS) = accumulated text REPLACEMENTS (length REPLACEMENTS)
   \<and> (\<forall>(p, r) \<in> set REPLACEMENTS. replaces_every_occurrence p r (\<lambda>s. replace s p r))"
proof
  show "fst (rewrite text REPLACEMENTS) = accumulated text REPLACEMENTS (length REPLACEMENTS)"
    by (simp add: rewrite_eq accumulated_all)
next
  show "\<forall>(p, r) \<in> set REPLACEMENTS. replaces_every_occurrence p r (\<lambda>s. replace s p r)"
  proof (clarify)
    fix p r assume "(p, r) \<in> set REPLACEMENTS"
    with table_border_free have "p \<noteq> []" "border_free p"
      by (auto simp: list_all_iff)
    then show "replaces_every_occurrence p r (\<lambda>s. replace s p r)"
      unfolding replaces_every_occurrence_def
      by (simp add: replace_at_occurrence replace_no_occurrence)
  qed
qed

theorem rewrite_in_table_order_witness:
  "fst (rewrite ''p-4 bg-slate-700'' REPLACEMENTS) = accumulated ''p-4 bg-slate-700'' REPLACEMENTS 84
   \<and> replace (''p-4 '' @ ''bg-slate-700'' @ '' m-1'') ''bg-slate-700'' ''bg-gray-700''
       = ''p-4 '' @ ''bg-gray-700'' @ '' m-1''"
proof -
  have mem: "(''bg-slate-700'', ''bg-gray-700'') \<in> set REPLACEMENTS"
    by (simp add: REPLACEMENTS_def)
  from rewrite_in_table_order [of "''p-4 bg-slate-700''"]
  have acc: "fst (rewrite ''p-4 bg-slate-700'' REPLACEMENTS)
               = accumulated ''p-4 bg-slate-700'' REPLACEMENTS (length REPLACEMENTS)"
    and every: "\<forall>(p, r) \<in> set REPLACEMENTS. replaces_every_occurrence p r (\<lambda>s. replace s p r)"
    by blast+
  from every mem
  have r: "replaces_every_occurrence ''bg-slate-700'' ''bg-gray-700''
             (\<lambda>s. replace s ''bg-slate-700'' ''bg-gray-700'')"
    by blast
  have n1: "\<not> sublist ''bg-slate-700'' ''p-4 ''" by code_simp
  have n2: "\<not> sublist ''bg-slate-700'' '' m-1''" by code_simp
  from r n1 n2 have "replace (''p-4 '' @ ''bg-slate-700'' @ '' m-1'') ''bg-slate-700'' ''bg-gray-700''
       = ''p-4 '' @ ''bg-gray-700'' @ '' m-1''"
    unfolding replaces_every_occurrence_def by metis
  with acc show ?thesis by (simp only: length_REPLACEMENTS)
qed

text \<open>
  C2. The changed flag of the rewrite is true exactly when the result text differs from
  the input text, whichever rules fired; it is the flag that \<^verbatim>\<open>process_file\<close> returns
  for a file with that content, whenever it returns.
\<close>

theorem changed_iff_result_differs:
  "snd (rewrite text REPLACEMENTS) = (fst (rewrite text REPLACEMENTS) \<noteq> text)
   \<and> (files w filepath = Some (File True True (Text text)) \<longrightarrow>
        (\<exists>w'. process_file filepath w = Inr (fst (rewrite text REPLACEMENTS) \<noteq> text, w')))
   \<and> (\<forall>r wr changed w'.
         files w filepath = Some (File r wr (Text text))
           \<and> process_file filepath w = Inr (changed, w')
         \<longrightarrow> changed = (fst (rewrite text REPLACEMENTS) \<noteq> text))"
  by (auto simp: rewrite_eq process_file_def Let_def split: if_splits)

theorem changed_iff_result_differs_witness:
  "snd (rewrite ''text-slate-600'' REPLACEMENTS)
   \<and> (\<exists>w'. process_file ''a.tsx''
               \<lparr>files = [''a.tsx'' \<mapsto> File True True (Text ''text-slate-600'')], events = []\<rparr>
             = Inr (True, w'))"
  using changed_iff_result_differs
          [of "''text-slate-600''"
              "\<lparr>files = [''a.tsx'' \<mapsto> File True True (Text ''text-slate-600'')], events = []\<rparr>"
              "''a.tsx''"]
  by (simp add: rewrite_text_slate_600)

text \<open>
  C3. The table is not ordered most-specific-first throughout: rule 38, with the pattern
  \<^verbatim>\<open>bg-emerald-500\<close>, stands before rule 40, whose pattern \<^verbatim>\<open>hover:bg-emerald-500\<close>
  contains it. Rule 38 therefore rewrites every text that rule 40 is meant for, and
  \<^verbatim>\<open>hover:bg-emerald-500\<close> becomes \<^verbatim>\<open>hover:bg-success-500\<close>, not the
  \<^verbatim>\<open>hover:bg-success-400\<close> of rule 40.
\<close>

theorem table_not_most_specific_first:
  "\<not> most_specific_first REPLACEMENTS
   \<and> REPLACEMENTS ! 38 = (''bg-emerald-500'', ''bg-success-500'')
   \<and> REPLACEMENTS ! 40 = (''hover:bg-emerald-500'', ''hover:bg-success-400'')
   \<and> strict_sublist ''bg-emerald-500'' ''hover:bg-emerald-500''
   \<and> rewrite ''hover:bg-emerald-500'' REPLACEMENTS = (''hover:bg-success-500'', True)"
proof -
  have "\<not> most_specific_first REPLACEMENTS"
  proof
    assume "most_specific_first REPLACEMENTS"
    then have "\<forall>j \<in> set [0..<length REPLACEMENTS]. \<forall>i \<in> set [0..<j].
                 \<not> strict_sublist (fst (REPLACEMENTS ! i)) (fst (REPLACEMENTS ! j))"
      unfolding most_specific_first_def list_all_iff .
    then have "\<not> strict_sublist (fst (REPLACEMENTS ! 38)) (fst (REPLACEMENTS ! 40))"
      by (simp add: length_REPLACEMENTS)
    with sub_38_40 show False by (simp add: nth_38 nth_40)
  qed
  moreover have "rewrite ''hover:bg-emerald-500'' REPLACEMENTS = (''hover:bg-success-500'', True)"
    by code_simp
  ultimately show ?thesis using nth_38 nth_40 sub_38_40 by blast
qed

text \<open>
  C4, as amended. An occurrence of \<^verbatim>\<open>bg-slate-800/50\<close> that does not follow
  \<^verbatim>\<open>hover:\<close> becomes \<^verbatim>\<open>bg-white/[0.03]\<close>, the replacement of the specific rule 16,
  and never the \<^verbatim>\<open>bg-gray-800\<close> of the general rule 20: the result of the run is the
  rewritten text before the occurrence, \<^verbatim>\<open>bg-white/[0.03]\<close>, and the rewritten text
  after it. An occurrence that follows \<^verbatim>\<open>hover:\<close> belongs to the still more specific
  rule 6, which stands first: together with \<^verbatim>\<open>hover:\<close> it becomes
  \<^verbatim>\<open>hover:bg-white/[0.05]\<close>, again between the rewritten texts on its two sides.
\<close>

theorem specific_bg_slate_rule_wins:
  "(\<not> suffix ''hover:'' u \<longrightarrow>
      fst (rewrite (u @ ''bg-slate-800/50'' @ v) REPLACEMENTS)
        = fst (rewrite u REPLACEMENTS) @ ''bg-white/[0.03]'' @ fst (rewrite v REPLACEMENTS))
   \<and> fst (rewrite (u @ ''hover:'' @ ''bg-slate-800/50'' @ v) REPLACEMENTS)
        = fst (rewrite u REPLACEMENTS) @ ''hover:bg-white/[0.05]'' @ fst (rewrite v REPLACEMENTS)"
proof (intro conjI impI)
  assume nhov: "\<not> suffix ''hover:'' u"
  let ?m = "''bg-slate-800/50''" and ?m' = "''bg-white/[0.03]''"
  let ?hp = "''hover:bg-slate-800/50''" and ?hr = "''hover:bg-white/[0.05]''"
  define R1 where "R1 = take 6 REPLACEMENTS"
  define R2 where "R2 = take 9 (drop 7 REPLACEMENTS)"
  define R3 where "R3 = drop 17 REPLACEMENTS"
  have sp: "REPLACEMENTS = R1 @ (?hp, ?hr) # R2 @ (?m, ?m') # R3"
    unfolding R1_def R2_def R3_def by (rule table_split_at_bg_slate_800_50)
  have full: "apply_replacements s REPLACEMENTS
      = apply_replacements
          (replace (apply_replacements (replace (apply_replacements s R1) ?hp ?hr) R2) ?m ?m') R3"
    for s
    unfolding sp by (rule apply_replacements_split)
  have s1: "apply_replacements (a @ ?m @ b) R1
              = apply_replacements a R1 @ ?m @ apply_replacements b R1" for a b
    unfolding R1_def by (rule apply_replacements_around_marker [OF _ clear_before_hover]) simp
  have s3: "apply_replacements (a @ ?m @ b) R2
              = apply_replacements a R2 @ ?m @ apply_replacements b R2" for a b
    unfolding R2_def by (rule apply_replacements_around_marker [OF _ clear_between]) simp
  have s5: "apply_replacements (a @ ?m' @ b) R3
              = apply_replacements a R3 @ ?m' @ apply_replacements b R3" for a b
    unfolding R3_def by (rule apply_replacements_around_marker [OF _ clear_after]) simp
  have s4: "replace (a @ ?m @ b) ?m ?m' = replace a ?m ?m' @ ?m' @ replace b ?m ?m'" for a b
    by (rule replace_at_occurrence [OF border_free_bg_slate_800_50]) simp
  have nh: "\<not> suffix ''hover:'' (apply_replacements u R1)"
    using nhov suffix_apply_replacements [OF no_hover_suffix_made] unfolding R1_def by blast
  have s2: "replace (apply_replacements u R1 @ ?m @ b) ?hp ?hr
              = replace (apply_replacements u R1) ?hp ?hr @ ?m @ replace b ?hp ?hr" for b
  proof (rule replace_around_marker)
    show "starts_inside ?hp ?m = []" by (rule hover_rule_overlap(1))
    show "\<forall>k \<in> set (starts_before ?hp ?m). \<not> suffix (take k ?hp) (apply_replacements u R1)"
      unfolding hover_rule_overlap(2) using nh by (simp add: hover_rule_overlap(3))
    show "?m \<noteq> []" by simp
  qed
  have "apply_replacements (u @ ?m @ v) REPLACEMENTS
          = apply_replacements u REPLACEMENTS @ ?m' @ apply_replacements v REPLACEMENTS"
    unfolding full s1 s2 s3 s4 s5 ..
  then show "fst (rewrite (u @ ?m @ v) REPLACEMENTS)
        = fst (rewrite u REPLACEMENTS) @ ?m' @ fst (rewrite v REPLACEMENTS)"
    by (simp only: rewrite_eq fst_conv)
next
  let ?hp = "''hover:bg-slate-800/50''" and ?hr = "''hover:bg-white/[0.05]''"
  define R1 where "R1 = take 6 REPLACEMENTS"
  define R2 where "R2 = drop 7 REPLACEMENTS"
  have sp: "REPLACEMENTS = R1 @ (?hp, ?hr) # R2"
    unfolding R1_def R2_def by (rule table_split_at_hover)
  have full: "apply_replacements s REPLACEMENTS
      = apply_replacements (replace (apply_replacements s R1) ?hp ?hr) R2" for s
    unfolding sp by (rule apply_replacements_split1)
  have s1: "apply_replacements (a @ ?hp @ b) R1
              = apply_replacements a R1 @ ?hp @ apply_replacements b R1" for a b
    unfolding R1_def by (rule apply_replacements_around_marker [OF _ clear_hover_before]) simp
  have s2: "replace (a @ ?hp @ b) ?hp ?hr = replace a ?hp ?hr @ ?hr @ replace b ?hp ?hr" for a b
    by (rule replace_at_occurrence [OF border_free_hover]) simp
  have s3: "apply_replacements (a @ ?hr @ b) R2
              = apply_replacements a R2 @ ?hr @ apply_replacements b R2" for a b
    unfolding R2_def by (rule apply_replacements_around_marker [OF _ clear_hover_after]) simp
  have "apply_replacements (u @ ?hp @ v) REPLACEMENTS
          = apply_replacements u REPLACEMENTS @ ?hr @ apply_replacements v REPLACEMENTS"
    unfolding full s1 s2 s3 ..
  moreover have "u @ ''hover:'' @ ''bg-slate-800/50'' @ v = u @ ?hp @ v" by simp
  ultimately show "fst (rewrite (u @ ''hover:'' @ ''bg-slate-800/50'' @ v) REPLACEMENTS)
        = fst (rewrite u REPLACEMENTS) @ ?hr @ fst (rewrite v REPLACEMENTS)"
    by (simp only: rewrite_eq fst_conv)
qed

theorem specific_bg_slate_rule_wins_witness:
  "fst (rewrite (''p-4 '' @ ''bg-slate-800/50'' @ '' m-1'') REPLACEMENTS)
     = ''p-4 '' @ ''bg-white/[0.03]'' @ '' m-1''
   \<and> fst (rewrite (''p-4 '' @ ''hover:'' @ ''bg-slate-800/50'' @ '' m-1'') REPLACEMENTS)
     = ''p-4 '' @ ''hover:bg-white/[0.05]'' @ '' m-1''"
proof -
  have "\<not> suffix ''hover:'' ''p-4 ''" by code_simp
  with specific_bg_slate_rule_wins [of "''p-4 ''" "'' m-1''"] show ?thesis
    by (simp only: rewrite_p4 rewrite_m1 fst_conv simp_thms)
qed

text \<open>
  The claim fails as it is written: after \<^verbatim>\<open>hover:\<close> the occurrence belongs to the
  still more specific rule 6, which stands first and turns the whole of
  \<^verbatim>\<open>hover:bg-slate-800/50\<close> into \<^verbatim>\<open>hover:bg-white/[0.05]\<close>.
\<close>

theorem hover_rule_wins_counterexample:
  "sublist ''bg-slate-800/50'' ''hover:bg-slate-800/50''
   \<and> rewrite ''hover:bg-slate-800/50'' REPLACEMENTS = (''hover:bg-white/[0.05]'', True)
   \<and> \<not> sublist ''bg-white/[0.03]'' ''hover:bg-white/[0.05]''"
proof -
  have "sublist ''bg-slate-800/50'' ''hover:bg-slate-800/50''" by code_simp
  moreover have "rewrite ''hover:bg-slate-800/50'' REPLACEMENTS = (''hover:bg-white/[0.05]'', True)"
    by code_simp
  moreover have "\<not> sublist ''bg-white/[0.03]'' ''hover:bg-white/[0.05]''" by code_simp
  ultimately show ?thesis by blast
qed

text \<open>
  C5. When no pattern of the table occurs in the result of a run, a second run on that
  result changes nothing: it returns the same text and \<open>changed = False\<close>.
\<close>

theorem second_run_is_noop:
  assumes "\<forall>(p, r) \<in> set REPLACEMENTS. \<not> sublist p (fst (rewrite text REPLACEMENTS))"
  shows "rewrite (fst (rewrite text REPLACEMENTS)) REPLACEMENTS
           = (fst (rewrite text REPLACEMENTS), False)"
  using apply_replacements_no_occurrence [OF assms] by (simp add: rewrite_eq)

theorem second_run_is_noop_witness:
  "rewrite ''bg-slate-800 font-inter'' REPLACEMENTS = (''bg-gray-800'', True)
   \<and> rewrite ''bg-gray-800'' REPLACEMENTS = (''bg-gray-800'', False)"
proof -
  have "\<forall>(p, r) \<in> set REPLACEMENTS.
          \<not> sublist p (fst (rewrite ''bg-slate-800 font-inter'' REPLACEMENTS))"
    using no_pattern_in_bg_gray_800 by (simp add: rewrite_slate_800_font_inter list_all_iff)
  from second_run_is_noop [OF this] show ?thesis
    by (simp add: rewrite_slate_800_font_inter)
qed

text \<open>
  C6. Each rule scans the text accumulated by the rules before it: a run over an empty
  rule list returns the text, a run over a longer list is the run over the rules before a
  rule, one pass of that rule, and the run over the rules after it; and when the pattern of
  a rule occurs in the text accumulated before it, the rule fires there. In every text
  that contains \<^verbatim>\<open>focus:ring-2 focus:ring-purple-500\<close>, which does not contain the
  pattern of rule 80, the occurrence is untouched by the first 73 rules, rule 73 turns it
  into \<^verbatim>\<open>focus:ring-2 focus:ring-brand-500\<close>, the pattern of rule 80, it stays so up to
  rule 80, and rule 80 fires on it in the same run.
\<close>

theorem later_rule_fires_on_produced_text:
  "fst (rewrite s []) = s
   \<and> fst (rewrite s (rules1 @ (p, r) # rules2))
       = fst (rewrite (replace (fst (rewrite s rules1)) p r) rules2)
   \<and> (p \<noteq> [] \<and> sublist p (fst (rewrite s rules1)) \<longrightarrow>
        (\<exists>a b. fst (rewrite s rules1) = a @ p @ b
               \<and> fst (rewrite s (rules1 @ [(p, r)])) = a @ r @ replace b p r))
   \<and> REPLACEMENTS ! 73 = (''ring-purple-500'', ''ring-brand-500'')
   \<and> REPLACEMENTS ! 80 = (''focus:ring-2 focus:ring-brand-500'',
                            ''focus:outline-hidden focus:ring-3 focus:ring-brand-500/10'')
   \<and> \<not> sublist ''focus:ring-2 focus:ring-brand-500'' ''focus:ring-2 focus:ring-purple-500''
   \<and> fst (rewrite (u @ ''focus:ring-2 focus:ring-purple-500'' @ v) (take 73 REPLACEMENTS))
       = fst (rewrite u (take 73 REPLACEMENTS)) @ ''focus:ring-2 focus:ring-purple-500''
         @ fst (rewrite v (take 73 REPLACEMENTS))
   \<and> fst (rewrite (u @ ''focus:ring-2 focus:ring-purple-500'' @ v) (take 74 REPLACEMENTS))
       = fst (rewrite u (take 74 REPLACEMENTS)) @ ''focus:ring-2 focus:ring-brand-500''
         @ fst (rewrite v (take 74 REPLACEMENTS))
   \<and> fst (rewrite (u @ ''focus:ring-2 focus:ring-purple-500'' @ v) (take 80 REPLACEMENTS))
       = fst (rewrite u (take 80 REPLACEMENTS)) @ ''focus:ring-2 focus:ring-brand-500''
         @ fst (rewrite v (take 80 REPLACEMENTS))
   \<and> fst (rewrite (u @ ''focus:ring-2 focus:ring-purple-500'' @ v) (take 81 REPLACEMENTS))
       = fst (rewrite u (take 81 REPLACEMENTS))
         @ ''focus:outline-hidden focus:ring-3 focus:ring-brand-500/10''
         @ fst (rewrite v (take 81 REPLACEMENTS))
   \<and> fst (rewrite (u @ ''focus:ring-2 focus:ring-purple-500'' @ v) REPLACEMENTS)
       = fst (rewrite u REPLACEMENTS)
         @ ''focus:outline-hidden focus:ring-3 focus:ring-brand-500/10''
         @ fst (rewrite v REPLACEMENTS)"
proof -
  let ?m0 = "''focus:ring-2 focus:ring-purple-500''"
  let ?m1 = "''focus:ring-2 focus:ring-brand-500''"
  let ?m2 = "''focus:outline-hidden focus:ring-3 focus:ring-brand-500/10''"
  let ?p = "''ring-purple-500''" and ?r = "''ring-brand-500''"
  define A where "A = take 73 REPLACEMENTS"
  define B where "B = take 6 (drop 74 REPLACEMENTS)"
  define C where "C = drop 81 REPLACEMENTS"
  have t74: "take 74 REPLACEMENTS = A @ [(?p, ?r)]"
    and t80: "take 80 REPLACEMENTS = A @ (?p, ?r) # B"
    and t81: "take 81 REPLACEMENTS = A @ (?p, ?r) # B @ [(?m1, ?m2)]"
    and tall: "REPLACEMENTS = A @ (?p, ?r) # B @ (?m1, ?m2) # C"
    unfolding A_def B_def C_def
    by (rule takes_ring(1), rule takes_ring(2), rule takes_ring(3), rule table_split_at_ring)
  have a74: "apply_replacements x (A @ [(?p, ?r)]) = replace (apply_replacements x A) ?p ?r" for x
    by (simp add: apply_replacements_append)
  have a80: "apply_replacements x (A @ (?p, ?r) # B)
               = apply_replacements (replace (apply_replacements x A) ?p ?r) B" for x
    by (simp add: apply_replacements_append)
  have a81: "apply_replacements x (A @ (?p, ?r) # B @ [(?m1, ?m2)])
               = replace (apply_replacements (replace (apply_replacements x A) ?p ?r) B) ?m1 ?m2"
    for x
    by (simp add: apply_replacements_append)
  have aall: "apply_replacements x (A @ (?p, ?r) # B @ (?m1, ?m2) # C)
               = apply_replacements
                   (replace (apply_replacements (replace (apply_replacements x A) ?p ?r) B)
                      ?m1 ?m2) C"
    for x
    by (rule apply_replacements_split)
  have sA: "apply_replacements (a @ ?m0 @ b) A
              = apply_replacements a A @ ?m0 @ apply_replacements b A" for a b
    unfolding A_def by (rule apply_replacements_around_marker [OF _ clear_ring_before]) simp
  have sB: "apply_replacements (a @ ?m1 @ b) B
              = apply_replacements a B @ ?m1 @ apply_replacements b B" for a b
    unfolding B_def by (rule apply_replacements_around_marker [OF _ clear_ring_between]) simp
  have sC: "apply_replacements (a @ ?m2 @ b) C
              = apply_replacements a C @ ?m2 @ apply_replacements b C" for a b
    unfolding C_def by (rule apply_replacements_around_marker [OF _ clear_ring_after]) simp
  have s73: "replace (a @ ?m0 @ b) ?p ?r = replace a ?p ?r @ ?m1 @ replace b ?p ?r" for a b
    by (rule replace_inside_focus_ring)
  have s80: "replace (a @ ?m1 @ b) ?m1 ?m2 = replace a ?m1 ?m2 @ ?m2 @ replace b ?m1 ?m2" for a b
    by (rule replace_at_occurrence [OF border_free_ring(2)]) simp
  have c1: "fst (rewrite s []) = s"
    by (simp add: rewrite_eq)
  have c2: "fst (rewrite s (rules1 @ (p, r) # rules2))
       = fst (rewrite (replace (fst (rewrite s rules1)) p r) rules2)"
    by (simp add: rewrite_eq apply_replacements_append)
  have c3: "p \<noteq> [] \<and> sublist p (fst (rewrite s rules1)) \<longrightarrow>
        (\<exists>a b. fst (rewrite s rules1) = a @ p @ b
               \<and> fst (rewrite s (rules1 @ [(p, r)])) = a @ r @ replace b p r)"
  proof
    assume h: "p \<noteq> [] \<and> sublist p (fst (rewrite s rules1))"
    then have "sublist p (apply_replacements s rules1)" by (simp add: rewrite_eq)
    from replace_fires [OF conjunct1 [OF h] this, of r]
    show "\<exists>a b. fst (rewrite s rules1) = a @ p @ b
               \<and> fst (rewrite s (rules1 @ [(p, r)])) = a @ r @ replace b p r"
      by (simp add: rewrite_eq apply_replacements_append)
  qed
  have c6: "\<not> sublist ?m1 ?m0" by code_simp
  have c7: "fst (rewrite (u @ ?m0 @ v) (take 73 REPLACEMENTS))
       = fst (rewrite u (take 73 REPLACEMENTS)) @ ?m0 @ fst (rewrite v (take 73 REPLACEMENTS))"
    unfolding rewrite_eq fst_conv A_def [symmetric] by (rule sA)
  have c8: "fst (rewrite (u @ ?m0 @ v) (take 74 REPLACEMENTS))
       = fst (rewrite u (take 74 REPLACEMENTS)) @ ?m1 @ fst (rewrite v (take 74 REPLACEMENTS))"
    unfolding rewrite_eq fst_conv t74 a74 sA s73 ..
  have c9: "fst (rewrite (u @ ?m0 @ v) (take 80 REPLACEMENTS))
       = fst (rewrite u (take 80 REPLACEMENTS)) @ ?m1 @ fst (rewrite v (take 80 REPLACEMENTS))"
    unfolding rewrite_eq fst_conv t80 a80 sA s73 sB ..
  have c10: "fst (rewrite (u @ ?m0 @ v) (take 81 REPLACEMENTS))
       = fst (rewrite u (take 81 REPLACEMENTS)) @ ?m2 @ fst (rewrite v (take 81 REPLACEMENTS))"
    unfolding rewrite_eq fst_conv t81 a81 sA s73 sB s80 ..
  have c11: "fst (rewrite (u @ ?m0 @ v) REPLACEMENTS)
       = fst (rewrite u REPLACEMENTS) @ ?m2 @ fst (rewrite v REPLACEMENTS)"
    unfolding rewrite_eq fst_conv tall aall sA s73 sB s80 sC ..
  from c1 c2 c3 nth_73 nth_80 c6 c7 c8 c9 c10 c11 show ?thesis by blast
qed

theorem later_rule_fires_on_produced_text_witness:
  "fst (rewrite (''p-4 '' @ ''focus:ring-2 focus:ring-purple-500'' @ '' m-1'') REPLACEMENTS)
     = ''p-4 '' @ ''focus:outline-hidden focus:ring-3 focus:ring-brand-500/10'' @ '' m-1''
   \<and> (\<exists>a b. ''focus:ring-2 focus:ring-purple-500'' = a @ ''ring-purple-500'' @ b
            \<and> fst (rewrite ''focus:ring-2 focus:ring-purple-500''
                      (take 73 REPLACEMENTS @ [(''ring-purple-500'', ''ring-brand-500'')]))
                = a @ ''ring-brand-500'' @ replace b ''ring-purple-500'' ''ring-brand-500'')"
proof -
  note t = later_rule_fires_on_produced_text
    [of "''focus:ring-2 focus:ring-purple-500''" "take 73 REPLACEMENTS"
        "''ring-purple-500''" "''ring-brand-500''" "[]" "''p-4 ''" "'' m-1''"]
  have sub: "sublist ''ring-purple-500'' ''focus:ring-2 focus:ring-purple-500''"
    by code_simp
  from t have "fst (rewrite (''p-4 '' @ ''focus:ring-2 focus:ring-purple-500'' @ '' m-1'') REPLACEMENTS)
     = fst (rewrite ''p-4 '' REPLACEMENTS)
       @ ''focus:outline-hidden focus:ring-3 focus:ring-brand-500/10''
       @ fst (rewrite '' m-1'' REPLACEMENTS)"
    by blast
  then have a: "fst (rewrite (''p-4 '' @ ''focus:ring-2 focus:ring-purple-500'' @ '' m-1'') REPLACEMENTS)
     = ''p-4 '' @ ''focus:outline-hidden focus:ring-3 focus:ring-brand-500/10'' @ '' m-1''"
    by (simp only: rewrite_p4 rewrite_m1 fst_conv)
  from t have "''ring-purple-500'' \<noteq> []
      \<and> sublist ''ring-purple-500''
           (fst (rewrite ''focus:ring-2 focus:ring-purple-500'' (take 73 REPLACEMENTS))) \<longrightarrow>
     (\<exists>a b. fst (rewrite ''focus:ring-2 focus:ring-purple-500'' (take 73 REPLACEMENTS))
              = a @ ''ring-purple-500'' @ b
            \<and> fst (rewrite ''focus:ring-2 focus:ring-purple-500''
                      (take 73 REPLACEMENTS @ [(''ring-purple-500'', ''ring-brand-500'')]))
                = a @ ''ring-brand-500'' @ replace b ''ring-purple-500'' ''ring-brand-500'')"
    by blast
  with sub have b: "\<exists>a b. ''focus:ring-2 focus:ring-purple-500'' = a @ ''ring-purple-500'' @ b
            \<and> fst (rewrite ''focus:ring-2 focus:ring-purple-500''
                      (take 73 REPLACEMENTS @ [(''ring-purple-500'', ''ring-brand-500'')]))
                = a @ ''ring-brand-500'' @ replace b ''ring-purple-500'' ''ring-brand-500''"
    by (simp only: rewrite_focus_ring_73 fst_conv) simp
  from a b show ?thesis by blast
qed

text \<open>
  C7. The scenario of the specification: the three slate classes of the \<^verbatim>\<open>div\<close> become
  the gray ones, and the text is reported as changed.
\<close>

theorem scenario_div:
  \<open>rewrite ''<div class="bg-slate-800 border-slate-700 text-slate-400">'' REPLACEMENTS
     = (''<div class="bg-gray-800 border-gray-700 text-gray-400">'', True)\<close>
  by code_simp

text \<open>
  C8. For a file name whose path does not exist, the orchestrator checks the path, prints
  the \<^verbatim>\<open>MISSING\<close> line for it, reads and writes nothing, and goes on with the next file
  name. A run over that file name alone returns with exactly these two events and the
  file system as it was; in a longer run they are the first events, and at the end of the
  run, however it ends, the path still does not exist.
\<close>

theorem missing_file_reported:
  assumes "files w (os_path_join dir filename) = None"
  shows "main_loop dir [filename] w
           = Inr (w\<lparr>events := events w @ [Exists (os_path_join dir filename),
                                          Print (''MISSING: '' @ filename)]\<rparr>)
         \<and> main_loop dir (filename # rest) w
           = main_loop dir rest
               (w\<lparr>events := events w @ [Exists (os_path_join dir filename),
                                         Print (''MISSING: '' @ filename)]\<rparr>)
         \<and> prefix (events w @ [Exists (os_path_join dir filename),
                              Print (''MISSING: '' @ filename)])
              (events (final_world (main_loop dir (filename # rest) w)))
         \<and> files (final_world (main_loop dir (filename # rest) w))
              (os_path_join dir filename) = None"
proof -
  let ?w2 = "w\<lparr>events := events w @ [Exists (os_path_join dir filename),
                                      Print (''MISSING: '' @ filename)]\<rparr>"
  have step: "main_loop dir (filename # names) w = main_loop dir names ?w2" for names
    using assms by (simp add: emit_def Let_def)
  have one: "main_loop dir [filename] w = Inr ?w2"
    unfolding step by simp
  from assms have "files ?w2 (os_path_join dir filename) = None" by simp
  with main_loop_final [of ?w2 dir rest "os_path_join dir filename"]
  have "prefix (events ?w2) (events (final_world (main_loop dir rest ?w2)))"
       "files (final_world (main_loop dir rest ?w2)) (os_path_join dir filename) = None"
    by blast+
  with one step [of rest] show ?thesis by simp
qed

theorem missing_file_reported_witness:
  "main_loop ''/app/components'' [''LogViewer.tsx''] \<lparr>files = Map.empty, events = []\<rparr>
     = Inr \<lparr>files = Map.empty,
            events = [Exists ''/app/components/LogViewer.tsx'', Print ''MISSING: LogViewer.tsx'']\<rparr>
   \<and> main_loop ''/app/components'' [''LogViewer.tsx'', ''GalaxyMap.tsx'']
       \<lparr>files = Map.empty, events = []\<rparr>
     = Inr \<lparr>files = Map.empty,
            events = [Exists ''/app/components/LogViewer.tsx'', Print ''MISSING: LogViewer.tsx'',
                      Exists ''/app/components/GalaxyMap.tsx'', Print ''MISSING: GalaxyMap.tsx'']\<rparr>"
proof -
  have j1: "os_path_join ''/app/components'' ''LogViewer.tsx'' = ''/app/components/LogViewer.tsx''"
    by (simp add: os_path_join_def suffix_to_prefix)
  have j2: "os_path_join ''/app/components'' ''GalaxyMap.tsx'' = ''/app/components/GalaxyMap.tsx''"
    by (simp add: os_path_join_def suffix_to_prefix)
  have m1: "files \<lparr>files = Map.empty, events = []\<rparr>
              (os_path_join ''/app/components'' ''LogViewer.tsx'') = None"
    by simp
  have m2: "files \<lparr>files = Map.empty,
                    events = [Exists ''/app/components/LogViewer.tsx'',
                              Print ''MISSING: LogViewer.tsx'']\<rparr>
              (os_path_join ''/app/components'' ''GalaxyMap.tsx'') = None"
    by simp
  note a = missing_file_reported [OF m1, of "[''GalaxyMap.tsx'']"]
  note b = missing_file_reported [OF m2, of "[]"]
  from a have a1: "main_loop ''/app/components'' [''LogViewer.tsx''] \<lparr>files = Map.empty, events = []\<rparr>
     = Inr \<lparr>files = Map.empty,
            events = [Exists ''/app/components/LogViewer.tsx'', Print ''MISSING: LogViewer.tsx'']\<rparr>"
    by (simp add: j1 j2 del: main_loop.simps)
  from a have a2: "main_loop ''/app/components'' [''LogViewer.tsx'', ''GalaxyMap.tsx'']
       \<lparr>files = Map.empty, events = []\<rparr>
     = main_loop ''/app/components'' [''GalaxyMap.tsx'']
        \<lparr>files = Map.empty,
            events = [Exists ''/app/components/LogViewer.tsx'', Print ''MISSING: LogViewer.tsx'']\<rparr>"
    by (simp add: j1 j2 del: main_loop.simps)
  from b have b1: "main_loop ''/app/components'' [''GalaxyMap.tsx'']
        \<lparr>files = Map.empty,
            events = [Exists ''/app/components/LogViewer.tsx'', Print ''MISSING: LogViewer.tsx'']\<rparr>
     = Inr \<lparr>files = Map.empty,
            events = [Exists ''/app/components/LogViewer.tsx'', Print ''MISSING: LogViewer.tsx'',
                      Exists ''/app/components/GalaxyMap.tsx'', Print ''MISSING: GalaxyMap.tsx'']\<rparr>"
    by (simp add: j1 j2 del: main_loop.simps)
  from a1 a2 b1 show ?thesis by simp
qed

text \<open>
  C9, as amended. For a file that exists, can be read as text and, where the rewrite
  changes it, can be written, the orchestrator reads it and writes exactly when the
  rewrite reports a change: then the file holds the whole result text and
  \<^verbatim>\<open>UPDATED\<close> is printed; otherwise nothing is written, the file system stays as it
  is and \<^verbatim>\<open>NO CHANGES\<close> is printed; then the run goes on. For an existing path that
  is a directory, cannot be read, does not decode, or cannot be written although the
  rewrite changes its text, the exception ends the run: nothing is written and no line is
  printed for the path.
\<close>

theorem write_iff_changed:
  "let p = os_path_join dir filename;
       result = fst (rewrite text REPLACEMENTS);
       changed = snd (rewrite text REPLACEMENTS);
       updated = w\<lparr>files := (files w)(p \<mapsto> File True wr (Text result)),
                    events := events w @ [Exists p, Read p, Write p result,
                                          Print (''UPDATED: '' @ filename)]\<rparr>;
       unchanged = w\<lparr>events := events w @ [Exists p, Read p,
                                            Print (''NO CHANGES: '' @ filename)]\<rparr>
   in (files w p = Some (File True wr (Text text)) \<and> (changed \<longrightarrow> wr) \<longrightarrow>
         main_loop dir [filename] w = Inr (if changed then updated else unchanged)
         \<and> main_loop dir (filename # rest) w
             = main_loop dir rest (if changed then updated else unchanged))
      \<and> (files w p = Some (File True False (Text text)) \<and> changed \<longrightarrow>
           main_loop dir (filename # rest) w
             = Inl (PermissionError, w\<lparr>events := events w @ [Exists p, Read p]\<rparr>))
      \<and> (files w p = Some (File True wr Undecodable) \<longrightarrow>
           main_loop dir (filename # rest) w
             = Inl (UnicodeDecodeError, w\<lparr>events := events w @ [Exists p]\<rparr>))
      \<and> (files w p = Some (File False wr c) \<longrightarrow>
           main_loop dir (filename # rest) w
             = Inl (PermissionError, w\<lparr>events := events w @ [Exists p]\<rparr>))
      \<and> (files w p = Some Directory \<longrightarrow>
           main_loop dir (filename # rest) w
             = Inl (IsADirectoryError, w\<lparr>events := events w @ [Exists p]\<rparr>))"
  by (auto simp: Let_def process_file_def emit_def rewrite_eq)

theorem write_iff_changed_witness:
  "main_loop ''/app/components'' [''LogViewer.tsx'']
       \<lparr>files = [''/app/components/LogViewer.tsx'' \<mapsto> File True True (Text ''text-slate-600'')],
        events = []\<rparr>
     = Inr \<lparr>files = [''/app/components/LogViewer.tsx'' \<mapsto> File True True (Text ''text-gray-500'')],
            events = [Exists ''/app/components/LogViewer.tsx'',
                      Read ''/app/components/LogViewer.tsx'',
                      Write ''/app/components/LogViewer.tsx'' ''text-gray-500'',
                      Print ''UPDATED: LogViewer.tsx'']\<rparr>
   \<and> main_loop ''/app/components'' [''LogViewer.tsx'']
       \<lparr>files = [''/app/components/LogViewer.tsx'' \<mapsto> File True False (Text ''text-gray-500'')],
        events = []\<rparr>
     = Inr \<lparr>files = [''/app/components/LogViewer.tsx'' \<mapsto> File True False (Text ''text-gray-500'')],
            events = [Exists ''/app/components/LogViewer.tsx'',
                      Read ''/app/components/LogViewer.tsx'',
                      Print ''NO CHANGES: LogViewer.tsx'']\<rparr>
   \<and> main_loop ''/app/components'' [''LogViewer.tsx'', ''GalaxyMap.tsx'']
       \<lparr>files = [''/app/components/LogViewer.tsx'' \<mapsto> Directory], events = []\<rparr>
     = Inl (IsADirectoryError,
            \<lparr>files = [''/app/components/LogViewer.tsx'' \<mapsto> Directory],
             events = [Exists ''/app/components/LogViewer.tsx'']\<rparr>)"
proof -
  note t1 = write_iff_changed
    [of "''/app/components''" "''LogViewer.tsx''" "''text-slate-600''"
        "\<lparr>files = [''/app/components/LogViewer.tsx'' \<mapsto> File True True (Text ''text-slate-600'')],
          events = []\<rparr>" True "[]"]
  note t2 = write_iff_changed
    [of "''/app/components''" "''LogViewer.tsx''" "''text-gray-500''"
        "\<lparr>files = [''/app/components/LogViewer.tsx'' \<mapsto> File True False (Text ''text-gray-500'')],
          events = []\<rparr>" False "[]"]
  note t3 = write_iff_changed
    [of "''/app/components''" "''LogViewer.tsx''" "[]"
        "\<lparr>files = [''/app/components/LogViewer.tsx'' \<mapsto> Directory], events = []\<rparr>"
        True "[''GalaxyMap.tsx'']"]
  from t1 have a: "main_loop ''/app/components'' [''LogViewer.tsx'']
       \<lparr>files = [''/app/components/LogViewer.tsx'' \<mapsto> File True True (Text ''text-slate-600'')],
        events = []\<rparr>
     = Inr \<lparr>files = [''/app/components/LogViewer.tsx'' \<mapsto> File True True (Text ''text-gray-500'')],
            events = [Exists ''/app/components/LogViewer.tsx'',
                      Read ''/app/components/LogViewer.tsx'',
                      Write ''/app/components/LogViewer.tsx'' ''text-gray-500'',
                      Print ''UPDATED: LogViewer.tsx'']\<rparr>"
    by (simp add: Let_def join_LogViewer rewrite_text_slate_600 del: main_loop.simps)
  from t2 have b: "main_loop ''/app/components'' [''LogViewer.tsx'']
       \<lparr>files = [''/app/components/LogViewer.tsx'' \<mapsto> File True False (Text ''text-gray-500'')],
        events = []\<rparr>
     = Inr \<lparr>files = [''/app/components/LogViewer.tsx'' \<mapsto> File True False (Text ''text-gray-500'')],
            events = [Exists ''/app/components/LogViewer.tsx'',
                      Read ''/app/components/LogViewer.tsx'',
                      Print ''NO CHANGES: LogViewer.tsx'']\<rparr>"
    by (simp add: Let_def join_LogViewer rewrite_text_gray_500 del: main_loop.simps)
  from t3 have c: "main_loop ''/app/components'' [''LogViewer.tsx'', ''GalaxyMap.tsx'']
       \<lparr>files = [''/app/components/LogViewer.tsx'' \<mapsto> Directory], events = []\<rparr>
     = Inl (IsADirectoryError,
            \<lparr>files = [''/app/components/LogViewer.tsx'' \<mapsto> Directory],
             events = [Exists ''/app/components/LogViewer.tsx'']\<rparr>)"
    by (simp add: Let_def join_LogViewer del: main_loop.simps)
  from a b c show ?thesis by blast
qed

text \<open>
  The claim fails as it is written: a file without write permission exists, the rewrite
  changes its text, and yet it is not overwritten and \<^verbatim>\<open>UPDATED\<close> is not printed; the
  run ends with \<^verbatim>\<open>PermissionError\<close>.
\<close>

theorem read_only_file_counterexample:
  "files \<lparr>files = [''/app/components/LogViewer.tsx'' \<mapsto> File True False (Text ''text-slate-600'')],
          events = []\<rparr>
      (os_path_join ''/app/components'' ''LogViewer.tsx'') \<noteq> None
   \<and> rewrite ''text-slate-600'' REPLACEMENTS = (''text-gray-500'', True)
   \<and> main_loop ''/app/components'' [''LogViewer.tsx'']
       \<lparr>files = [''/app/components/LogViewer.tsx'' \<mapsto> File True False (Text ''text-slate-600'')],
        events = []\<rparr>
     = Inl (PermissionError,
            \<lparr>files = [''/app/components/LogViewer.tsx'' \<mapsto> File True False (Text ''text-slate-600'')],
             events = [Exists ''/app/components/LogViewer.tsx'',
                       Read ''/app/components/LogViewer.tsx'']\<rparr>)"
  by (simp add: join_LogViewer rewrite_text_slate_600 apply_text_slate_600
                process_file_def emit_def Let_def)

text \<open>
  C10, as amended. The last rule deletes every occurrence of \<^verbatim>\<open>font-inter\<close> that the
  text accumulated before it contains: that text is a sequence of fragments without
  \<^verbatim>\<open>font-inter\<close>, joined by \<^verbatim>\<open>font-inter\<close>, and the result of the run is the
  concatenation of the fragments. No replacement of the table contains
  \<^verbatim>\<open>font-inter\<close>.
\<close>

theorem font_inter_occurrences_deleted:
  "(\<exists>us. accumulated text REPLACEMENTS 83 = join ''font-inter'' us
         \<and> (\<forall>u \<in> set us. \<not> sublist ''font-inter'' u)
         \<and> fst (rewrite text REPLACEMENTS) = concat us)
   \<and> (\<forall>(p, r) \<in> set REPLACEMENTS. \<not> sublist ''font-inter'' r)"
proof
  have l: "length REPLACEMENTS = Suc 83"
    by (simp add: length_REPLACEMENTS)
  have "fst (rewrite text REPLACEMENTS) = accumulated text REPLACEMENTS (length REPLACEMENTS)"
    by (simp add: rewrite_eq accumulated_all)
  then have "fst (rewrite text REPLACEMENTS) = accumulated text REPLACEMENTS (Suc 83)"
    by (simp only: l)
  then have res: "fst (rewrite text REPLACEMENTS)
                    = replace (accumulated text REPLACEMENTS 83) ''font-inter'' []"
    by (simp only: accumulated.simps nth_83 fst_conv snd_conv)
  from replace_segments [of "''font-inter''" "accumulated text REPLACEMENTS 83" "[]"]
  obtain us where "accumulated text REPLACEMENTS 83 = join ''font-inter'' us"
      "\<forall>u \<in> set us. \<not> sublist ''font-inter'' u"
      "replace (accumulated text REPLACEMENTS 83) ''font-inter'' [] = join [] us"
    by auto
  with res show "\<exists>us. accumulated text REPLACEMENTS 83 = join ''font-inter'' us
         \<and> (\<forall>u \<in> set us. \<not> sublist ''font-inter'' u)
         \<and> fst (rewrite text REPLACEMENTS) = concat us"
    by (auto simp: join_Nil_concat)
next
  show "\<forall>(p, r) \<in> set REPLACEMENTS. \<not> sublist ''font-inter'' r"
    using no_replacement_has_font_inter by (simp add: list_all_iff)
qed

theorem font_inter_occurrences_deleted_witness:
  "(\<exists>us. accumulated ''a-font-inter-b'' REPLACEMENTS 83 = join ''font-inter'' us
         \<and> (\<forall>u \<in> set us. \<not> sublist ''font-inter'' u)
         \<and> fst (rewrite ''a-font-inter-b'' REPLACEMENTS) = concat us)
   \<and> accumulated ''a-font-inter-b'' REPLACEMENTS 83 = ''a-font-inter-b''
   \<and> rewrite ''a-font-inter-b'' REPLACEMENTS = (''a--b'', True)"
proof -
  have "accumulated ''a-font-inter-b'' REPLACEMENTS 83 = ''a-font-inter-b''"
    by code_simp
  moreover have "rewrite ''a-font-inter-b'' REPLACEMENTS = (''a--b'', True)"
    by code_simp
  ultimately show ?thesis
    using font_inter_occurrences_deleted [of "''a-font-inter-b''"] by blast
qed

text \<open>
  The claim fails as it is written: a deletion can join the two fragments beside it
  into a new \<^verbatim>\<open>font-inter\<close>, which the single pass does not visit again.
\<close>

theorem font_inter_survives_counterexample:
  "rewrite ''font-font-interinter'' REPLACEMENTS = (''font-inter'', True)
   \<and> sublist ''font-inter'' (fst (rewrite ''font-font-interinter'' REPLACEMENTS))"
proof -
  have "rewrite ''font-font-interinter'' REPLACEMENTS = (''font-inter'', True)"
    by code_simp
  then show ?thesis by simp
qed

end
